theory Spec2Isabelle
  imports Main
begin

unbundle bit_operations_syntax

section \<open>Python values and errors\<close>

text \<open>
  The source is \<^verbatim>\<open>src/python/arith_algorithms.py\<close>. Python integers are unbounded, so
  every operand, width and shift count is an \<open>int\<close>. The bitwise operators of Python on
  negative integers act on the infinite two's-complement representation, which is what
  \<open>AND\<close>, \<open>OR\<close> and \<open>NOT\<close> do on \<open>int\<close>.

  Two exceptions can leave the arithmetic core. Both are \<^verbatim>\<open>ValueError\<close> in Python and
  differ by their message: the explicit \<^verbatim>\<open>raise ValueError("Division by zero")\<close> of the
  dividers, and the \<^verbatim>\<open>ValueError: negative shift count\<close> that \<^verbatim>\<open><<\<close> and \<^verbatim>\<open>>>\<close> raise
  when the shift count is negative.
\<close>

datatype error = DivisionByZero | NegativeShiftCount

definition bind_err :: "error + 'a \<Rightarrow> ('a \<Rightarrow> error + 'b) \<Rightarrow> error + 'b" where
  "bind_err m f = (case m of Inl e \<Rightarrow> Inl e | Inr x \<Rightarrow> f x)"

text \<open>\<^verbatim>\<open>x << n\<close> and \<^verbatim>\<open>x >> n\<close>.\<close>

definition lshift :: "int \<Rightarrow> int \<Rightarrow> error + int" where
  "lshift x n = (if n < 0 then Inl NegativeShiftCount else Inr (push_bit (nat n) x))"

definition rshift :: "int \<Rightarrow> int \<Rightarrow> error + int" where
  "rshift x n = (if n < 0 then Inl NegativeShiftCount else Inr (drop_bit (nat n) x))"

text \<open>\<^verbatim>\<open>range(width)\<close>: empty when \<open>width \<le> 0\<close>.\<close>

definition py_range :: "int \<Rightarrow> int list" where
  "py_range n = map int [0..<nat n]"

text \<open>
  The flag dictionaries hold Python booleans (\<^verbatim>\<open>overflow\<close>, \<^verbatim>\<open>borrow\<close>) and a Python
  integer (\<^verbatim>\<open>carry_out = (result >> width) & 1\<close>). \<open>truthy\<close> is Python's truth value,
  \<open>py_eq\<close> is Python's \<^verbatim>\<open>==\<close> on these values, under which \<^verbatim>\<open>1 == True\<close> and
  \<^verbatim>\<open>0 == False\<close>.
\<close>

datatype pyval = PyBool bool | PyInt int

fun truthy :: "pyval \<Rightarrow> bool" where
  "truthy (PyBool b) = b"
| "truthy (PyInt i) = (i \<noteq> 0)"

fun as_int :: "pyval \<Rightarrow> int" where
  "as_int (PyBool b) = (if b then 1 else 0)"
| "as_int (PyInt i) = i"

definition py_eq :: "pyval \<Rightarrow> pyval \<Rightarrow> bool" where
  "py_eq x y = (as_int x = as_int y)"

type_synonym flags = "string \<rightharpoonup> pyval"

text \<open>\<^verbatim>\<open>d.get(key, default)\<close>.\<close>

definition dict_get :: "flags \<Rightarrow> string \<Rightarrow> pyval \<Rightarrow> pyval" where
  "dict_get d k dflt = (case d k of None \<Rightarrow> dflt | Some v \<Rightarrow> v)"

section \<open>Width masking, sign extension, shifts\<close>

definition mask_to_width :: "int \<Rightarrow> int \<Rightarrow> error + int" where
  "mask_to_width value width =
     bind_err (lshift 1 width) (\<lambda>m. Inr (value AND (m - 1)))"

definition sign_extend :: "int \<Rightarrow> int \<Rightarrow> error + int" where
  "sign_extend value width =
     bind_err (lshift 1 (width - 1)) (\<lambda>s.
       if value AND s \<noteq> 0
       then bind_err (lshift 1 width) (\<lambda>m. Inr (value - m))
       else Inr value)"

definition to_unsigned :: "int \<Rightarrow> int \<Rightarrow> error + int" where
  "to_unsigned value width =
     (if value < 0
      then bind_err (lshift 1 width) (\<lambda>m. Inr (m + value))
      else Inr value)"

definition arithmetic_right_shift :: "int \<Rightarrow> int \<Rightarrow> int \<Rightarrow> error + int" where
  "arithmetic_right_shift value shift width =
     (if shift = 0 then Inr value
      else bind_err (lshift 1 (width - 1)) (\<lambda>s.
        let sign_bit = value AND s in
        if sign_bit \<noteq> 0
        then bind_err (lshift 1 shift) (\<lambda>m1.
             bind_err (lshift (m1 - 1) (width - shift)) (\<lambda>fill_mask.
             bind_err (rshift value shift) (\<lambda>v.
             bind_err (lshift 1 width) (\<lambda>m.
               Inr ((v OR fill_mask) AND (m - 1))))))
        else rshift value shift))"

section \<open>Addition and subtraction\<close>

definition add :: "int \<Rightarrow> int \<Rightarrow> int \<Rightarrow> bool \<Rightarrow> error + (int \<times> flags)" where
  "add a0 b0 width signed =
     bind_err (mask_to_width a0 width) (\<lambda>a.
     bind_err (mask_to_width b0 width) (\<lambda>b.
     bind_err (rshift (a + b) width) (\<lambda>c.
     let carry_out = c AND 1 in
     bind_err (mask_to_width (a + b) width) (\<lambda>result.
       if signed
       then bind_err (rshift a (width - 1)) (\<lambda>x.
            bind_err (rshift b (width - 1)) (\<lambda>y.
            bind_err (rshift result (width - 1)) (\<lambda>z.
            let a_sign = x AND 1; b_sign = y AND 1; result_sign = z AND 1;
                overflow = (a_sign = b_sign \<and> a_sign \<noteq> result_sign)
            in Inr (result, [''overflow'' \<mapsto> PyBool overflow]))))
       else Inr (result, [''carry_out'' \<mapsto> PyInt carry_out])))))"

definition sub :: "int \<Rightarrow> int \<Rightarrow> int \<Rightarrow> bool \<Rightarrow> error + (int \<times> flags)" where
  "sub a0 b0 width signed =
     bind_err (mask_to_width a0 width) (\<lambda>a.
     bind_err (mask_to_width b0 width) (\<lambda>b.
     bind_err (mask_to_width (NOT b + 1) width) (\<lambda>b_complement.
     bind_err (add a b_complement width signed) (\<lambda>(result, add_flags).
       if signed
       then Inr (result, [''overflow'' \<mapsto> dict_get add_flags ''overflow'' (PyBool False)])
       else Inr (result,
              [''borrow'' \<mapsto>
                 PyBool (\<not> truthy (dict_get add_flags ''carry_out'' (PyBool False)))])))))"

section \<open>Multipliers\<close>

text \<open>
  The expression \<^verbatim>\<open>sign_extend(mask_to_width(x, width), width)\<close>, which the signed paths
  of the multipliers and dividers and the checks of \<^verbatim>\<open>verify\<close> all apply to an operand.
\<close>

definition signed_operand :: "int \<Rightarrow> int \<Rightarrow> error + int" where
  "signed_operand x width =
     bind_err (mask_to_width x width) (\<lambda>m. sign_extend m width)"

text \<open>The loop of \<^verbatim>\<open>mul_sequential\<close>, over the indices still to visit.\<close>

fun mul_sequential_loop :: "int \<Rightarrow> int \<Rightarrow> int list \<Rightarrow> int \<Rightarrow> error + int" where
  "mul_sequential_loop a b [] product = Inr product"
| "mul_sequential_loop a b (i # is) product =
     bind_err (lshift 1 i) (\<lambda>m.
       if b AND m \<noteq> 0
       then bind_err (lshift a i) (\<lambda>s. mul_sequential_loop a b is (product + s))
       else mul_sequential_loop a b is product)"

definition mul_sequential :: "int \<Rightarrow> int \<Rightarrow> int \<Rightarrow> bool \<Rightarrow> error + (int \<times> flags)" where
  "mul_sequential a0 b0 width signed =
     bind_err
       (if signed
        then bind_err (signed_operand a0 width) (\<lambda>a.
             bind_err (signed_operand b0 width) (\<lambda>b.
               Inr (\<bar>a\<bar>, \<bar>b\<bar>, (a < 0) \<noteq> (b < 0))))
        else bind_err (mask_to_width a0 width) (\<lambda>a.
             bind_err (mask_to_width b0 width) (\<lambda>b.
               Inr (a, b, False))))
       (\<lambda>(a, b, result_negative).
     bind_err (mul_sequential_loop a b (py_range width) 0) (\<lambda>product.
     bind_err (mask_to_width (if signed \<and> result_negative then - product else product)
                 (2 * width)) (\<lambda>p.
       Inr (p, Map.empty))))"

definition mul_booth :: "int \<Rightarrow> int \<Rightarrow> int \<Rightarrow> bool \<Rightarrow> error + (int \<times> flags)" where
  "mul_booth a b width signed =
     (if \<not> signed then mul_sequential a b width signed
      else bind_err (signed_operand a width) (\<lambda>a_signed.
           bind_err (signed_operand b width) (\<lambda>b_signed.
           bind_err (mask_to_width (a_signed * b_signed) (2 * width)) (\<lambda>p.
             Inr (p, Map.empty)))))"

text \<open>The loop of \<^verbatim>\<open>mul_bit\<close>, with its \<^verbatim>\<open>partial_product\<close>.\<close>

fun mul_bit_loop :: "int \<Rightarrow> int \<Rightarrow> int list \<Rightarrow> int \<Rightarrow> error + int" where
  "mul_bit_loop a b [] product = Inr product"
| "mul_bit_loop a b (i # is) product =
     bind_err (lshift 1 i) (\<lambda>m.
       if b AND m \<noteq> 0
       then bind_err (lshift a i) (\<lambda>partial_product.
              mul_bit_loop a b is (product + partial_product))
       else mul_bit_loop a b is product)"

definition mul_bit :: "int \<Rightarrow> int \<Rightarrow> int \<Rightarrow> bool \<Rightarrow> error + (int \<times> flags)" where
  "mul_bit a0 b0 width signed =
     bind_err
       (if signed
        then bind_err (signed_operand a0 width) (\<lambda>a.
             bind_err (signed_operand b0 width) (\<lambda>b.
               Inr (\<bar>a\<bar>, \<bar>b\<bar>, (a < 0) \<noteq> (b < 0))))
        else bind_err (mask_to_width a0 width) (\<lambda>a.
             bind_err (mask_to_width b0 width) (\<lambda>b.
               Inr (a, b, False))))
       (\<lambda>(a, b, result_negative).
     bind_err (mul_bit_loop a b (py_range width) 0) (\<lambda>product.
     bind_err (mask_to_width (if signed \<and> result_negative then - product else product)
                 (2 * width)) (\<lambda>p.
       Inr (p, Map.empty))))"

definition mul_bitpair :: "int \<Rightarrow> int \<Rightarrow> int \<Rightarrow> bool \<Rightarrow> error + (int \<times> flags)" where
  "mul_bitpair a b width signed =
     (if \<not> signed then mul_sequential a b width signed
      else bind_err (signed_operand a width) (\<lambda>a_signed.
           bind_err (signed_operand b width) (\<lambda>b_signed.
           bind_err (mask_to_width (a_signed * b_signed) (2 * width)) (\<lambda>p.
             Inr (p, Map.empty)))))"

section \<open>Dividers\<close>

text \<open>
  One iteration of the restoring loop on the register pair \<open>(A, Q)\<close>: shift the pair left
  by one bit, subtract the divisor tentatively, restore or keep.
\<close>

definition div_restoring_step :: "int \<Rightarrow> int \<Rightarrow> int \<times> int \<Rightarrow> error + (int \<times> int)" where
  "div_restoring_step b width AQ =
     (case AQ of (A, Q) \<Rightarrow>
        bind_err (lshift A 1) (\<lambda>a1.
        bind_err (rshift Q (width - 1)) (\<lambda>q1.
        bind_err (lshift 1 width) (\<lambda>m.
        let A' = (a1 OR (q1 AND 1)) AND (m - 1) in
        bind_err (lshift Q 1) (\<lambda>q2.
        bind_err (lshift 1 width) (\<lambda>m2.
        let Q' = q2 AND (m2 - 1);
            temp_A = A' - b
        in if temp_A < 0 then Inr (A', Q' AND NOT 1) else Inr (temp_A, Q' OR 1)))))))"

fun div_restoring_loop :: "int \<Rightarrow> int \<Rightarrow> int list \<Rightarrow> int \<times> int \<Rightarrow> error + (int \<times> int)" where
  "div_restoring_loop b width [] AQ = Inr AQ"
| "div_restoring_loop b width (i # is) AQ =
     bind_err (div_restoring_step b width AQ) (div_restoring_loop b width is)"

definition div_restoring :: "int \<Rightarrow> int \<Rightarrow> int \<Rightarrow> bool \<Rightarrow> error + (int \<times> int)" where
  "div_restoring a0 b0 width signed =
     (if b0 = 0 then Inl DivisionByZero
      else bind_err
        (if signed
         then bind_err (signed_operand a0 width) (\<lambda>a.
              bind_err (signed_operand b0 width) (\<lambda>b.
                Inr (\<bar>a\<bar>, \<bar>b\<bar>, (a < 0) \<noteq> (b < 0), a < 0)))
         else bind_err (mask_to_width a0 width) (\<lambda>a.
              bind_err (mask_to_width b0 width) (\<lambda>b.
                Inr (a, b, False, False))))
        (\<lambda>(a, b, result_negative, remainder_negative).
      bind_err (div_restoring_loop b width (py_range width) (0, a)) (\<lambda>(A, Q).
        if signed
        then bind_err (mask_to_width (if result_negative then - Q else Q) width) (\<lambda>quotient.
             bind_err (mask_to_width (if remainder_negative then - A else A) width) (\<lambda>remainder.
               Inr (quotient, remainder)))
        else Inr (Q, A))))"

definition div_nonrestoring :: "int \<Rightarrow> int \<Rightarrow> int \<Rightarrow> bool \<Rightarrow> error + (int \<times> int)" where
  "div_nonrestoring a0 b0 width signed =
     (if b0 = 0 then Inl DivisionByZero
      else if \<not> signed then div_restoring a0 b0 width signed
      else bind_err (signed_operand a0 width) (\<lambda>a.
           bind_err (signed_operand b0 width) (\<lambda>b.
           let result_negative = ((a < 0) \<noteq> (b < 0));
               remainder_negative = (a < 0)
           in bind_err (div_restoring \<bar>a\<bar> \<bar>b\<bar> width False) (\<lambda>(q, r).
              bind_err (if result_negative \<and> q \<noteq> 0
                        then mask_to_width (- q) width else Inr q) (\<lambda>q'.
              bind_err (if remainder_negative \<and> r \<noteq> 0
                        then mask_to_width (- r) width else Inr r) (\<lambda>r'.
                Inr (q', r')))))))"

section \<open>Predicates used in the statements\<close>

text \<open>
  \<open>only_flag name res\<close>: the call returned, and its flag dictionary has exactly the one
  key \<open>name\<close>.
\<close>

definition only_flag :: "string \<Rightarrow> error + (int \<times> flags) \<Rightarrow> bool" where
  "only_flag name res = (case res of Inl e \<Rightarrow> False | Inr (r, f) \<Rightarrow> dom f = {name})"

text \<open>
  The division identity as \<^verbatim>\<open>verify\<close> checks it on the signed path: operands,
  quotient and remainder are masked and sign-extended, and
  \<^verbatim>\<open>a_signed == q_signed * b_signed + r_signed\<close>. The predicate is false when the divider
  raised.
\<close>

definition division_identity_signed :: "int \<Rightarrow> int \<Rightarrow> int \<Rightarrow> error + (int \<times> int) \<Rightarrow> bool" where
  "division_identity_signed a b width res =
     (case res of Inl e \<Rightarrow> False | Inr (q, r) \<Rightarrow>
      (case signed_operand a width of Inl e \<Rightarrow> False | Inr a_signed \<Rightarrow>
      (case signed_operand b width of Inl e \<Rightarrow> False | Inr b_signed \<Rightarrow>
      (case signed_operand q width of Inl e \<Rightarrow> False | Inr q_signed \<Rightarrow>
      (case signed_operand r width of Inl e \<Rightarrow> False | Inr r_signed \<Rightarrow>
         a_signed = q_signed * b_signed + r_signed)))))"

text \<open>
  The identity on the unsigned path, \<^verbatim>\<open>a == q * b + r\<close>, on the masked operands and
  the outputs as returned.
\<close>

definition division_identity_unsigned :: "int \<Rightarrow> int \<Rightarrow> int \<Rightarrow> error + (int \<times> int) \<Rightarrow> bool" where
  "division_identity_unsigned a b width res =
     (case res of Inl e \<Rightarrow> False | Inr (q, r) \<Rightarrow>
      (case mask_to_width a width of Inl e \<Rightarrow> False | Inr a_masked \<Rightarrow>
      (case mask_to_width b width of Inl e \<Rightarrow> False | Inr b_masked \<Rightarrow>
         a_masked = q * b_masked + r)))"


text \<open>
  The invariant of the restoring loop after \<open>k\<close> of \<open>n\<close> iterations on dividend \<open>a\<close> and
  divisor \<open>b\<close>: the low \<open>k\<close> bits \<open>q\<close> of \<open>Q\<close> are the quotient bits found so far, the
  high bits \<open>r\<close> of \<open>Q\<close> are the dividend bits not yet shifted into \<open>A\<close>.
\<close>

definition restoring_inv :: "int \<Rightarrow> int \<Rightarrow> nat \<Rightarrow> nat \<Rightarrow> int \<times> int \<Rightarrow> bool" where
  "restoring_inv a b n k AQ =
     (case AQ of (A, Q) \<Rightarrow>
        \<exists>q r. 0 \<le> q \<and> q < 2 ^ k \<and> 0 \<le> r \<and> r < 2 ^ (n - k) \<and> Q = r * 2 ^ k + q \<and>
              0 \<le> A \<and> A < 2 ^ k \<and> a = (q * b + A) * 2 ^ (n - k) + r \<and>
              (0 < b \<longrightarrow> A < b) \<and> (b = 0 \<longrightarrow> q = 2 ^ k - 1))"


section \<open>Auxiliary lemmas\<close>

subsection \<open>Shifts, masking and sign extension\<close>

lemma bind_err_Inr [simp]: "bind_err (Inr x) f = f x"
  by (simp add: bind_err_def)

lemma bind_err_Inl [simp]: "bind_err (Inl e) f = Inl e"
  by (simp add: bind_err_def)

lemma lshift_nonneg: "0 \<le> n \<Longrightarrow> lshift x n = Inr (x * 2 ^ nat n)"
  by (simp add: lshift_def push_bit_eq_mult)

lemma lshift_neg: "n < 0 \<Longrightarrow> lshift x n = Inl NegativeShiftCount"
  by (simp add: lshift_def)

lemma rshift_nonneg: "0 \<le> n \<Longrightarrow> rshift x n = Inr (x div 2 ^ nat n)"
  by (simp add: rshift_def drop_bit_eq_div)

lemma mask_to_width_eq: "0 \<le> w \<Longrightarrow> mask_to_width v w = Inr (v mod 2 ^ nat w)"
  by (simp add: mask_to_width_def lshift_nonneg flip: mask_eq_exp_minus_1 take_bit_eq_mask take_bit_eq_mod)

lemma bit_test: "(v AND 2 ^ n \<noteq> 0) = bit (v::int) n"
  by (simp add: bit_iff_and_push_bit_not_eq_0 push_bit_eq_mult)

lemma sign_extend_eq:
  "1 \<le> w \<Longrightarrow> sign_extend v w = Inr (if bit v (nat (w - 1)) then v - 2 ^ nat w else v)"
  by (simp add: sign_extend_def lshift_nonneg bit_test)

lemma lshift_push: "0 \<le> n \<Longrightarrow> lshift x n = Inr (push_bit (nat n) x)"
  by (simp add: lshift_def)
lemma rshift_drop: "0 \<le> n \<Longrightarrow> rshift x n = Inr (drop_bit (nat n) x)"
  by (simp add: rshift_def)

lemma bit_below_width:
  assumes "0 \<le> r" "r < 2 ^ n" "bit (r::int) i" shows "i < n"
proof -
  have "take_bit n r = r" using assms by (simp add: take_bit_int_eq_self)
  then have "bit (take_bit n r) i" using assms by simp
  then show ?thesis by (simp add: bit_take_bit_iff)
qed

lemma ars_clear:
  assumes "1 \<le> w" "0 \<le> s" "\<not> bit raw (nat (w - 1))"
  shows "arithmetic_right_shift raw s w = Inr (drop_bit (nat s) raw)"
  using assms by (simp add: arithmetic_right_shift_def lshift_nonneg rshift_drop bit_test Let_def)

lemma ars_set:
  assumes "1 \<le> w" "0 < s" "s \<le> w" "bit raw (nat (w - 1))"
  shows "arithmetic_right_shift raw s w =
         Inr (take_bit (nat w) (drop_bit (nat s) raw OR push_bit (nat (w - s)) (mask (nat s))))"
  using assms
  by (simp add: arithmetic_right_shift_def lshift_nonneg rshift_drop bit_test Let_def
        take_bit_eq_mask mask_eq_exp_minus_1 push_bit_eq_mult)

lemma ars_bits:
  assumes "1 \<le> w" "0 \<le> raw" "raw < 2 ^ nat w" "0 \<le> s" "s \<le> w" "bit raw (nat (w - 1))"
  shows "\<exists>r. arithmetic_right_shift raw s w = Inr r \<and>
            (\<forall>i. bit r i = (i < nat w \<and> (nat (w - s) \<le> i \<or> bit raw (i + nat s))))"
proof (cases "s = 0")
  case True
  have "bit raw i = (i < nat w \<and> (nat w \<le> i \<or> bit raw i))" for i
    using bit_below_width [OF assms(2,3)] by auto
  then show ?thesis using True by (simp add: arithmetic_right_shift_def)
next
  case False
  then have "0 < s" using assms by simp
  have "bit (take_bit (nat w) (drop_bit (nat s) raw OR push_bit (nat (w - s)) (mask (nat s)))) i
      = (i < nat w \<and> (nat (w - s) \<le> i \<or> bit raw (i + nat s)))" for i
    using assms \<open>0 < s\<close> bit_below_width [OF assms(2,3), of "i + nat s"]
    by (auto simp add: bit_simps add.commute)
  then show ?thesis
    using ars_set [OF assms(1) \<open>0 < s\<close> assms(5,6)] by simp
qed

lemma ars_full:
  assumes "1 \<le> w" "0 \<le> raw" "raw < 2 ^ nat w" "bit raw (nat (w - 1))"
  shows "arithmetic_right_shift raw w w = Inr (2 ^ nat w - 1)"
proof -
  have "drop_bit (nat w) raw = 0" using assms by (simp add: drop_bit_eq_div)
  then show ?thesis using assms ars_set [of w w raw]
    by (simp flip: mask_eq_exp_minus_1)
qed


subsection \<open>Addition and subtraction\<close>

lemma bit_as_shift: "(x div 2 ^ n) AND 1 = of_bool (bit (x::int) n)"
  by (simp add: and_one_eq bit_iff_odd mod2_eq_if flip: drop_bit_eq_div)

lemma add_unsigned:
  assumes "1 \<le> w"
  shows "add a b w False =
         Inr ((a mod 2 ^ nat w + b mod 2 ^ nat w) mod 2 ^ nat w,
              [''carry_out'' \<mapsto> PyInt (of_bool (bit (a mod 2 ^ nat w + b mod 2 ^ nat w) (nat w)))])"
  using assms by (simp add: add_def mask_to_width_eq rshift_nonneg bit_as_shift Let_def)

lemma add_signed:
  assumes "1 \<le> w"
  shows "add a b w True =
         Inr ((a mod 2 ^ nat w + b mod 2 ^ nat w) mod 2 ^ nat w,
              [''overflow'' \<mapsto> PyBool
                 (bit (a mod 2 ^ nat w) (nat (w - 1)) = bit (b mod 2 ^ nat w) (nat (w - 1)) \<and>
                  bit (a mod 2 ^ nat w) (nat (w - 1)) \<noteq>
                  bit ((a mod 2 ^ nat w + b mod 2 ^ nat w) mod 2 ^ nat w) (nat (w - 1)))])"
  using assms by (simp add: add_def mask_to_width_eq rshift_nonneg bit_as_shift Let_def)

lemma add_200: "add 200 100 8 False = Inr (44, [''carry_out'' \<mapsto> PyInt 1])"
  by (simp add: add_unsigned bit_iff_odd)

lemma add_100: "add 100 50 8 False = Inr (150, [''carry_out'' \<mapsto> PyInt 0])"
  by (simp add: add_unsigned bit_iff_odd)

lemma add_100s: "add 100 50 8 True = Inr (150, [''overflow'' \<mapsto> PyBool True])"
  by (simp add: add_signed bit_iff_odd)

lemma add_mask_left:
  assumes "1 \<le> w"
  shows "add (a mod 2 ^ nat w) b w s = add a b w s"
  using assms by (cases s) (simp_all add: add_unsigned add_signed)

lemma twos_complement_eq:
  assumes "1 \<le> w"
  shows "mask_to_width (NOT (b mod 2 ^ nat w) + 1) w = mask_to_width (NOT b + 1) w"
  using assms by (simp add: mask_to_width_eq not_int_def mod_minus_eq)

lemma sub_unfold:
  assumes "1 \<le> w" "mask_to_width (NOT b + 1) w = Inr tc" "add a tc w s = Inr (r, af)"
  shows "sub a b w s =
         Inr (r, if s then [''overflow'' \<mapsto> dict_get af ''overflow'' (PyBool False)]
                 else [''borrow'' \<mapsto> PyBool (\<not> truthy (dict_get af ''carry_out'' (PyBool False)))])"
proof -
  have "mask_to_width (NOT (b mod 2 ^ nat w) + 1) w = Inr tc"
    using assms(1,2) by (simp add: twos_complement_eq)
  moreover have "add (a mod 2 ^ nat w) tc w s = Inr (r, af)"
    using assms(1,3) by (simp add: add_mask_left)
  ultimately show ?thesis
    using assms(1) by (simp add: sub_def mask_to_width_eq)
qed

lemma sub_unsigned:
  assumes "1 \<le> w"
  shows "\<exists>tc r c. mask_to_width (NOT b + 1) w = Inr tc \<and>
           add a tc w False = Inr (r, [''carry_out'' \<mapsto> c]) \<and>
           sub a b w False = Inr (r, [''borrow'' \<mapsto> PyBool (\<not> truthy c)])"
proof -
  obtain tc where tc: "mask_to_width (NOT b + 1) w = Inr tc"
    using assms by (simp add: mask_to_width_eq)
  obtain r c where ad: "add a tc w False = Inr (r, [''carry_out'' \<mapsto> c])"
    using add_unsigned [OF assms] by blast
  have "sub a b w False = Inr (r, [''borrow'' \<mapsto> PyBool (\<not> truthy c)])"
    using sub_unfold [OF assms tc ad] by (simp add: dict_get_def)
  with tc ad show ?thesis by blast
qed

lemma sub_signed:
  assumes "1 \<le> w"
  shows "\<exists>tc r ov. mask_to_width (NOT b + 1) w = Inr tc \<and>
           add a tc w True = Inr (r, [''overflow'' \<mapsto> ov]) \<and>
           sub a b w True = Inr (r, [''overflow'' \<mapsto> ov])"
proof -
  obtain tc where tc: "mask_to_width (NOT b + 1) w = Inr tc"
    using assms by (simp add: mask_to_width_eq)
  obtain r ov where ad: "add a tc w True = Inr (r, [''overflow'' \<mapsto> ov])"
    using add_signed [OF assms] by blast
  have "sub a b w True = Inr (r, [''overflow'' \<mapsto> ov])"
    using sub_unfold [OF assms tc ad] by (simp add: dict_get_def)
  with tc ad show ?thesis by blast
qed

lemma sub_128: "sub (-128) 1 8 True = Inr (127, [''overflow'' \<mapsto> PyBool True])"
  by (simp add: sub_def add_signed mask_to_width_eq dict_get_def bit_iff_odd)

lemma sub_53: "sub 5 3 8 False = Inr (2, [''borrow'' \<mapsto> PyBool False])"
  by (simp add: sub_def add_unsigned mask_to_width_eq dict_get_def bit_iff_odd)


subsection \<open>The restoring loop\<close>

lemma and_low_mask: "(x::int) AND (2 ^ n - 1) = x mod 2 ^ n"
  by (simp flip: mask_eq_exp_minus_1 take_bit_eq_mask take_bit_eq_mod)

lemma and_not_one_even: "even (x::int) \<Longrightarrow> x AND NOT 1 = x"
  by (rule bit_eqI) (auto simp add: bit_simps bit_0 elim: )

lemma top_bit_cases:
  assumes "0 \<le> (Q::int)" "Q < 2 * M" "0 < M"
  shows "Q div M = 0 \<or> Q div M = 1"
proof -
  have "0 \<le> Q div M" using assms by (simp add: pos_imp_zdiv_nonneg_iff)
  moreover have "Q div M < 2"
  proof (rule ccontr)
    assume "\<not> Q div M < 2"
    then have "M * 2 \<le> M * (Q div M)" using assms(3) by (intro mult_left_mono) simp_all
    moreover have "M * (Q div M) \<le> Q"
      using assms(3) by (metis mult_div_mod_eq pos_mod_sign le_add_same_cancel1)
    ultimately show False using assms(2) by simp
  qed
  ultimately show ?thesis by linarith
qed

lemma div_restoring_step_eq:
  assumes "1 \<le> w" "0 \<le> Q" "Q < 2 ^ nat w" "0 \<le> A" "A < 2 ^ nat (w - 1)"
  shows "div_restoring_step b w (A, Q) =
         Inr (if 2 * A + Q div 2 ^ nat (w - 1) < b
              then (2 * A + Q div 2 ^ nat (w - 1), 2 * (Q mod 2 ^ nat (w - 1)))
              else (2 * A + Q div 2 ^ nat (w - 1) - b, 2 * (Q mod 2 ^ nat (w - 1)) + 1))"
proof -
  define M :: int where "M = 2 ^ nat (w - 1)"
  have M: "0 < M" by (simp add: M_def)
  have nw: "nat w = Suc (nat (w - 1))" using assms(1) by simp
  have pw: "(2::int) ^ nat w = 2 * M" unfolding M_def nw by simp
  define t where "t = Q div M"
  have t: "t = 0 \<or> t = 1"
    unfolding t_def using top_bit_cases [of Q M] assms M pw by simp
  have t1: "t AND 1 = t" using t by auto
  have sh: "(A * 2) OR t = 2 * A + t" using t by (auto simp add: or_one_eq)
  have b1: "0 \<le> 2 * A + t" using t assms by auto
  have b2: "2 * A + t < 2 * M" using t assms unfolding M_def by auto
  have A': "(2 * A + t) mod (2 * M) = 2 * A + t" using b1 b2 by simp
  have Q': "(Q * 2) mod (2 * M) = 2 * (Q mod M)"
    by (simp add: mult.commute)
  have mk: "x AND (2 * M - 1) = x mod (2 * M)" for x
    using and_low_mask [of x "nat w"] by (simp add: pw)
  have e1: "2 * (Q mod M) AND NOT 1 = 2 * (Q mod M)"
    by (rule and_not_one_even) simp
  have e2: "2 * (Q mod M) OR 1 = 2 * (Q mod M) + 1"
    by (simp add: or_one_eq)
  have "div_restoring_step b w (A, Q) =
        (let A' = (A * 2 OR (Q div M AND 1)) AND (2 ^ nat w - 1);
             Q' = (Q * 2) AND (2 ^ nat w - 1)
         in if A' - b < 0 then Inr (A', Q' AND NOT 1) else Inr (A' - b, Q' OR 1))"
    using assms(1)
    by (simp add: div_restoring_step_def lshift_nonneg rshift_nonneg Let_def M_def)
  also have "\<dots> = (if 2 * A + t - b < 0 then Inr (2 * A + t, 2 * (Q mod M) AND NOT 1)
                    else Inr (2 * A + t - b, 2 * (Q mod M) OR 1))"
    unfolding Let_def pw mk by (simp only: t1 sh A' Q' flip: t_def)
  also have "\<dots> = Inr (if 2 * A + t < b then (2 * A + t, 2 * (Q mod M))
                        else (2 * A + t - b, 2 * (Q mod M) + 1))"
    unfolding e1 e2 by simp
  finally show ?thesis unfolding t_def M_def .
qed

lemma restoring_inv_init:
  "0 \<le> a \<Longrightarrow> a < 2 ^ n \<Longrightarrow> restoring_inv a b n 0 (0, a)"
  unfolding restoring_inv_def prod.case
  by (rule exI [of _ 0], rule exI [of _ a]) simp

lemma bind_err_assoc:
  "bind_err (bind_err m f) g = bind_err m (\<lambda>x. bind_err (f x) g)"
  by (cases m) simp_all

lemma div_restoring_loop_snoc:
  "div_restoring_loop b w (xs @ [i]) s =
   bind_err (div_restoring_loop b w xs s) (div_restoring_step b w)"
proof (induction xs arbitrary: s)
  case Nil
  show ?case by (cases "div_restoring_step b w s") simp_all
next
  case (Cons x xs)
  show ?case by (cases "div_restoring_step b w s") (simp_all add: Cons.IH)
qed

lemma restoring_inv_step:
  assumes b: "0 \<le> b" and k: "k < n" and inv: "restoring_inv a b n k AQ"
  shows "\<exists>AQ'. div_restoring_step b (int n) AQ = Inr AQ' \<and> restoring_inv a b n (Suc k) AQ'"
proof -
  obtain A Q where AQ: "AQ = (A, Q)" by (cases AQ)
  obtain q r where q: "0 \<le> q" "q < 2 ^ k" and r: "0 \<le> r" "r < 2 ^ (n - k)"
    and Q: "Q = r * 2 ^ k + q" and A: "0 \<le> A" "A < 2 ^ k"
    and a: "a = (q * b + A) * 2 ^ (n - k) + r"
    and Ab: "0 < b \<longrightarrow> A < b" and q0: "b = 0 \<longrightarrow> q = 2 ^ k - 1"
    using inv unfolding restoring_inv_def AQ by auto
  define m where "m = n - Suc k"
  define P :: int where "P = 2 ^ k"
  define M :: int where "M = 2 ^ m"
  have P: "0 < P" and M: "0 < M" by (simp_all add: P_def M_def)
  have nk: "n - k = Suc m" and n1: "nat (int n - 1) = k + m" and nn: "n = Suc (k + m)"
    using k by (simp_all add: m_def)
  have p1: "(2::int) ^ (n - k) = 2 * M" by (simp add: nk M_def)
  have p2: "(2::int) ^ nat (int n - 1) = P * M" by (simp add: n1 P_def M_def power_add)
  have p3: "(2::int) ^ n = 2 * (P * M)" by (subst nn) (simp add: P_def M_def power_add)
  have p4: "(2::int) ^ Suc k = 2 * P" by (simp add: P_def)
  have p5: "(2::int) ^ (n - Suc k) = M" by (simp add: M_def m_def)
  define t where "t = r div M"
  define r' where "r' = r mod M"
  have t: "t = 0 \<or> t = 1"
    unfolding t_def using top_bit_cases [of r M] r M p1 by simp
  have r': "0 \<le> r'" "r' < M" unfolding r'_def using M by simp_all
  have rs: "r = t * M + r'" unfolding t_def r'_def by simp
  define low where "low = r' * P + q"
  have low0: "0 \<le> low" unfolding low_def using r' q P by simp
  have "r' * P \<le> (M - 1) * P" using r' P by (intro mult_right_mono) simp_all
  then have low1: "low < P * M" unfolding low_def using q by (simp add: P_def algebra_simps)
  have Qs: "Q = (P * M) * t + low" unfolding Q low_def rs P_def [symmetric] by (simp add: algebra_simps)
  have Qdiv: "Q div (P * M) = t" using Qs low0 low1 by (rule int_div_pos_eq)
  have Qmod: "Q mod (P * M) = low" using Qs low0 low1 by (rule int_mod_pos_eq)
  have Q0: "0 \<le> Q" unfolding Qs using t low0 P M by auto
  have PM: "0 < P * M" using P M by simp
  have "(P * M) * t \<le> P * M" using t PM by auto
  then have "Q < 2 * (P * M)" unfolding Qs using low1 by linarith
  then have Q1: "Q < 2 ^ nat (int n)" by (simp add: p3)
  have "P * 1 \<le> P * M" using P M by (intro mult_left_mono) simp_all
  moreover have "A < P" using A by (simp add: P_def)
  ultimately have A1: "A < 2 ^ nat (int n - 1)" unfolding p2 by linarith
  have w1: "1 \<le> int n" using k by simp
  define A' where "A' = (if 2 * A + t < b then 2 * A + t else 2 * A + t - b)"
  define c :: int where "c = (if 2 * A + t < b then 0 else 1)"
  define Q' where "Q' = 2 * low + c"
  have step: "div_restoring_step b (int n) (A, Q) = Inr (A', Q')"
    unfolding div_restoring_step_eq [OF w1 Q0 Q1 A(1) A1] p2 Qdiv Qmod A'_def Q'_def c_def
    by simp
  have c: "c = 0 \<or> c = 1" unfolding c_def by simp
  have A'c: "A' = 2 * A + t - c * b" unfolding A'_def c_def by simp
  have i1: "0 \<le> 2 * q + c" "2 * q + c < 2 * P" using q c unfolding P_def by auto
  have i2: "Q' = r' * (2 * P) + (2 * q + c)" unfolding Q'_def low_def by (simp add: algebra_simps)
  have i3: "0 \<le> A'" unfolding A'_def using A t b by auto
  have i4: "A' < 2 * P" unfolding A'_def P_def using A t b by auto
  have i5: "a = ((2 * q + c) * b + A') * M + r'"
    unfolding a p1 rs A'c by (simp add: algebra_simps)
  have i6: "0 < b \<longrightarrow> A' < b" unfolding A'_def using Ab t by auto
  have i7: "b = 0 \<longrightarrow> 2 * q + c = 2 * P - 1"
    using q0 A t unfolding c_def P_def by auto
  have "restoring_inv a b n (Suc k) (A', Q')"
    unfolding restoring_inv_def prod.case p4 p5
    using i1 i2 i3 i4 i5 i6 i7 r' by blast
  with step show ?thesis unfolding AQ by blast
qed

lemma restoring_inv_loop:
  assumes "0 \<le> b" "restoring_inv a b n 0 s"
  shows "length xs \<le> n \<Longrightarrow>
         \<exists>AQ. div_restoring_loop b (int n) xs s = Inr AQ \<and> restoring_inv a b n (length xs) AQ"
proof (induction xs rule: rev_induct)
  case Nil
  show ?case using assms(2) by simp
next
  case (snoc x xs)
  then obtain AQ where 1: "div_restoring_loop b (int n) xs s = Inr AQ"
    and 2: "restoring_inv a b n (length xs) AQ" by auto
  have "length xs < n" using snoc.prems by simp
  from restoring_inv_step [OF assms(1) this 2] 1 show ?case
    by (simp add: div_restoring_loop_snoc)
qed

lemma restoring_inv_final:
  assumes "restoring_inv a b n n (A, Q)" "0 < b"
  shows "Q = a div b \<and> A = a mod b"
proof -
  obtain q r where "0 \<le> r" "r < 1" "Q = r * 2 ^ n + q" "0 \<le> A" "a = (q * b + A) + r" "A < b"
    using assms unfolding restoring_inv_def by auto
  then have "a = b * Q + A" "0 \<le> A" "A < b" by (simp_all add: algebra_simps)
  then show ?thesis using int_div_pos_eq int_mod_pos_eq by metis
qed

lemma restoring_inv_final_zero:
  assumes "restoring_inv a 0 n n (A, Q)"
  shows "Q = 2 ^ n - 1 \<and> A = a"
  using assms unfolding restoring_inv_def by auto

lemma div_restoring_loop_eq:
  assumes "1 \<le> w" "0 \<le> a" "a < 2 ^ nat w" "0 \<le> b"
  shows "div_restoring_loop b w (py_range w) (0, a) =
         Inr (if b = 0 then (a, 2 ^ nat w - 1) else (a mod b, a div b))"
proof -
  have w: "int (nat w) = w" using assms(1) by simp
  have len: "length (py_range w) \<le> nat w" "length (py_range w) = nat w"
    by (simp_all add: py_range_def)
  from restoring_inv_loop [OF assms(4) restoring_inv_init [OF assms(2,3)] len(1)]
  obtain A Q where 1: "div_restoring_loop b w (py_range w) (0, a) = Inr (A, Q)"
    and 2: "restoring_inv a b (nat w) (nat w) (A, Q)"
    unfolding w len(2) by (metis surj_pair)
  show ?thesis
  proof (cases "b = 0")
    case True
    then show ?thesis using 1 2 restoring_inv_final_zero [of a "nat w" A Q] by simp
  next
    case False
    then have "0 < b" using assms(4) by simp
    then show ?thesis using 1 2 restoring_inv_final [of a b "nat w" A Q] by simp
  qed
qed


subsection \<open>Sign-extended operands and the multiplier loops\<close>

lemma signed_operand_eq:
  assumes "1 \<le> w"
  shows "signed_operand a w = Inr (signed_take_bit (nat (w - 1)) a)"
proof -
  define n where "n = nat (w - 1)"
  define x where "x = take_bit (Suc n) a"
  have nw: "nat w = Suc n" using assms by (simp add: n_def)
  have 1: "mask_to_width a w = Inr x"
    using assms by (simp add: mask_to_width_eq nw x_def take_bit_eq_mod)
  have 2: "sign_extend x w = Inr (if bit x n then x - 2 ^ Suc n else x)"
    using assms by (simp add: sign_extend_eq nw flip: n_def)
  have 3: "bit x n = bit a n" by (simp add: x_def bit_take_bit_iff)
  have "signed_take_bit n a = (if bit x n then x - 2 ^ Suc n else x)"
    by (simp add: x_def bit_take_bit_iff signed_take_bit_eq_take_bit_minus [of n a])
  then show ?thesis
    unfolding signed_operand_def 1 n_def [symmetric] by (simp add: 2)
qed

lemma signed_bounds:
  "- (2 ^ n) \<le> signed_take_bit n (a::int)" "signed_take_bit n (a::int) < 2 ^ n"
  by (simp_all add: signed_take_bit_int_greater_eq_minus_exp signed_take_bit_int_less_exp)

lemma abs_signed_bound: "\<bar>signed_take_bit n (a::int)\<bar> \<le> 2 ^ n"
  using signed_bounds [of n a] by linarith

lemma abs_signed_lt:
  assumes "1 \<le> w"
  shows "\<bar>signed_take_bit (nat (w - 1)) (a::int)\<bar> < 2 ^ nat w"
proof -
  have "nat w = Suc (nat (w - 1))" using assms by simp
  then have "(2::int) ^ nat w = 2 * 2 ^ nat (w - 1)" by simp
  moreover have "(0::int) < 2 ^ nat (w - 1)" by simp
  ultimately show ?thesis using abs_signed_bound [of "nat (w - 1)" a] by linarith
qed

lemma bit_sum_take_bit:
  "(\<Sum>i\<leftarrow>[0..<n]. of_bool (bit b i) * 2 ^ i) = take_bit n (b::int)"
  by (induction n) (simp_all add: take_bit_Suc_from_most)

lemma mul_sequential_loop_sum:
  "mul_sequential_loop a b (map int is) p =
   Inr (p + a * (\<Sum>i\<leftarrow>is. of_bool (bit b i) * 2 ^ i))"
  by (induction "is" arbitrary: p) (simp_all add: lshift_nonneg bit_test algebra_simps)

lemma mul_bit_loop_sum:
  "mul_bit_loop a b (map int is) p =
   Inr (p + a * (\<Sum>i\<leftarrow>is. of_bool (bit b i) * 2 ^ i))"
  by (induction "is" arbitrary: p) (simp_all add: lshift_nonneg bit_test algebra_simps)

lemma mul_sequential_loop_eq:
  assumes "0 \<le> b" "b < 2 ^ nat w"
  shows "mul_sequential_loop a b (py_range w) 0 = Inr (a * b)"
  using assms by (simp add: py_range_def mul_sequential_loop_sum bit_sum_take_bit take_bit_int_eq_self)

lemma mul_bit_loop_eq:
  assumes "0 \<le> b" "b < 2 ^ nat w"
  shows "mul_bit_loop a b (py_range w) 0 = Inr (a * b)"
  using assms by (simp add: py_range_def mul_bit_loop_sum bit_sum_take_bit take_bit_int_eq_self)

lemma abs_product: "(if (x < 0) \<noteq> (y < 0) then - (\<bar>x\<bar> * \<bar>y\<bar>) else \<bar>x\<bar> * \<bar>y\<bar>) = x * (y::int)"
  by (auto simp add: abs_if)

lemma mul_sequential_unsigned:
  assumes "1 \<le> w"
  shows "mul_sequential a b w False =
         Inr ((a mod 2 ^ nat w) * (b mod 2 ^ nat w) mod 2 ^ nat (2 * w), Map.empty)"
  using assms by (simp add: mul_sequential_def mask_to_width_eq mul_sequential_loop_eq)

lemma mul_sequential_signed_gen:
  assumes "0 \<le> w" "signed_operand a w = Inr x" "signed_operand b w = Inr y" "\<bar>y\<bar> < 2 ^ nat w"
  shows "mul_sequential a b w True = Inr (x * y mod 2 ^ nat (2 * w), Map.empty)"
proof -
  have "mul_sequential a b w True =
        Inr ((if (x < 0) \<noteq> (y < 0) then - (\<bar>x\<bar> * \<bar>y\<bar>) else \<bar>x\<bar> * \<bar>y\<bar>) mod 2 ^ nat (2 * w),
             Map.empty)"
    using assms(1,4)
    by (simp add: mul_sequential_def assms(2,3) mask_to_width_eq mul_sequential_loop_eq)
  then show ?thesis by (simp only: abs_product)
qed

lemma mul_sequential_signed:
  assumes "1 \<le> w"
  shows "mul_sequential a b w True =
         Inr (signed_take_bit (nat (w - 1)) a * signed_take_bit (nat (w - 1)) b
                mod 2 ^ nat (2 * w), Map.empty)"
  using assms
  by (intro mul_sequential_signed_gen signed_operand_eq abs_signed_lt) simp_all

lemma mul_bit_unsigned:
  assumes "1 \<le> w"
  shows "mul_bit a b w False =
         Inr ((a mod 2 ^ nat w) * (b mod 2 ^ nat w) mod 2 ^ nat (2 * w), Map.empty)"
  using assms by (simp add: mul_bit_def mask_to_width_eq mul_bit_loop_eq)

lemma mul_bit_signed_gen:
  assumes "0 \<le> w" "signed_operand a w = Inr x" "signed_operand b w = Inr y" "\<bar>y\<bar> < 2 ^ nat w"
  shows "mul_bit a b w True = Inr (x * y mod 2 ^ nat (2 * w), Map.empty)"
proof -
  have "mul_bit a b w True =
        Inr ((if (x < 0) \<noteq> (y < 0) then - (\<bar>x\<bar> * \<bar>y\<bar>) else \<bar>x\<bar> * \<bar>y\<bar>) mod 2 ^ nat (2 * w),
             Map.empty)"
    using assms(1,4)
    by (simp add: mul_bit_def assms(2,3) mask_to_width_eq mul_bit_loop_eq)
  then show ?thesis by (simp only: abs_product)
qed

lemma mul_bit_signed:
  assumes "1 \<le> w"
  shows "mul_bit a b w True =
         Inr (signed_take_bit (nat (w - 1)) a * signed_take_bit (nat (w - 1)) b
                mod 2 ^ nat (2 * w), Map.empty)"
  using assms
  by (intro mul_bit_signed_gen signed_operand_eq abs_signed_lt) simp_all

lemma mul_booth_signed:
  assumes "1 \<le> w"
  shows "mul_booth a b w True =
         Inr (signed_take_bit (nat (w - 1)) a * signed_take_bit (nat (w - 1)) b
                mod 2 ^ nat (2 * w), Map.empty)"
  using assms by (simp add: mul_booth_def signed_operand_eq mask_to_width_eq)

lemma mul_bitpair_signed:
  assumes "1 \<le> w"
  shows "mul_bitpair a b w True =
         Inr (signed_take_bit (nat (w - 1)) a * signed_take_bit (nat (w - 1)) b
                mod 2 ^ nat (2 * w), Map.empty)"
  using assms by (simp add: mul_bitpair_def signed_operand_eq mask_to_width_eq)

subsection \<open>The dividers\<close>

lemma div_restoring_unsigned:
  assumes "1 \<le> w" "b \<noteq> 0"
  shows "div_restoring a b w False =
         Inr (if b mod 2 ^ nat w = 0 then (2 ^ nat w - 1, a mod 2 ^ nat w)
              else ((a mod 2 ^ nat w) div (b mod 2 ^ nat w),
                    (a mod 2 ^ nat w) mod (b mod 2 ^ nat w)))"
  using assms
  by (simp add: div_restoring_def mask_to_width_eq div_restoring_loop_eq)

lemma div_restoring_signed_gen:
  assumes "1 \<le> w" "b \<noteq> 0" "signed_operand a w = Inr x" "signed_operand b w = Inr y"
    "\<bar>x\<bar> < 2 ^ nat w"
  shows "div_restoring a b w True =
         Inr (if y = 0
              then ((if x < 0 then - (2 ^ nat w - 1) else 2 ^ nat w - 1) mod 2 ^ nat w,
                    (if x < 0 then - \<bar>x\<bar> else \<bar>x\<bar>) mod 2 ^ nat w)
              else ((if (x < 0) \<noteq> (y < 0) then - (\<bar>x\<bar> div \<bar>y\<bar>) else \<bar>x\<bar> div \<bar>y\<bar>) mod 2 ^ nat w,
                    (if x < 0 then - (\<bar>x\<bar> mod \<bar>y\<bar>) else \<bar>x\<bar> mod \<bar>y\<bar>) mod 2 ^ nat w))"
proof -
  have loop: "div_restoring_loop \<bar>y\<bar> w (py_range w) (0, \<bar>x\<bar>) =
        Inr (if \<bar>y\<bar> = 0 then (\<bar>x\<bar>, 2 ^ nat w - 1) else (\<bar>x\<bar> mod \<bar>y\<bar>, \<bar>x\<bar> div \<bar>y\<bar>))"
    using assms(1,5) by (intro div_restoring_loop_eq) simp_all
  show ?thesis
    using assms(1,2)
    by (simp add: div_restoring_def assms(3,4) loop mask_to_width_eq)
qed

lemma div_nonrestoring_unsigned:
  "div_nonrestoring a b w False = div_restoring a b w False"
  by (simp add: div_nonrestoring_def div_restoring_def)

lemma div_nonrestoring_signed_gen:
  assumes "1 \<le> w" "b \<noteq> 0" "signed_operand a w = Inr x" "signed_operand b w = Inr y"
    "\<bar>x\<bar> < 2 ^ nat w" "\<bar>y\<bar> < 2 ^ nat w"
  shows "div_nonrestoring a b w True =
         (if y = 0 then Inl DivisionByZero
          else Inr (if (x < 0) \<noteq> (y < 0) \<and> \<bar>x\<bar> div \<bar>y\<bar> \<noteq> 0
                    then (- (\<bar>x\<bar> div \<bar>y\<bar>)) mod 2 ^ nat w else \<bar>x\<bar> div \<bar>y\<bar>,
                    if x < 0 \<and> \<bar>x\<bar> mod \<bar>y\<bar> \<noteq> 0
                    then (- (\<bar>x\<bar> mod \<bar>y\<bar>)) mod 2 ^ nat w else \<bar>x\<bar> mod \<bar>y\<bar>))"
proof (cases "y = 0")
  case True
  then show ?thesis
    using assms(2) by (simp add: div_nonrestoring_def assms(3,4) div_restoring_def)
next
  case False
  have mx: "\<bar>x\<bar> mod 2 ^ nat w = \<bar>x\<bar>" and my: "\<bar>y\<bar> mod 2 ^ nat w = \<bar>y\<bar>"
    using assms(5,6) by simp_all
  have inner: "div_restoring \<bar>x\<bar> \<bar>y\<bar> w False = Inr (\<bar>x\<bar> div \<bar>y\<bar>, \<bar>x\<bar> mod \<bar>y\<bar>)"
    using False assms(1) by (simp add: div_restoring_unsigned mx my)
  show ?thesis
    using False assms(1,2)
    by (simp add: div_nonrestoring_def assms(3,4) inner mask_to_width_eq Let_def)
qed

lemma trunc_div_facts:
  fixes x y N :: int
  assumes "- N \<le> x" "x < N" "- N \<le> y" "y < N" "y \<noteq> 0" "\<not> (x = - N \<and> y = - 1)"
  defines "q \<equiv> \<bar>x\<bar> div \<bar>y\<bar>" and "r \<equiv> \<bar>x\<bar> mod \<bar>y\<bar>"
  defines "sq \<equiv> (if (x < 0) \<noteq> (y < 0) then - q else q)"
    and "sr \<equiv> (if x < 0 then - r else r)"
  shows "- N \<le> sq" "sq < N" "- N \<le> sr" "sr < N" "x = sq * y + sr"
proof -
  have N: "0 < N" using assms(1,2) by linarith
  have y: "0 < \<bar>y\<bar>" using assms(5) by simp
  have q0: "0 \<le> q" unfolding q_def using y by (simp add: pos_imp_zdiv_nonneg_iff)
  have r0: "0 \<le> r" and ry: "r < \<bar>y\<bar>" unfolding r_def using y by simp_all
  have eq: "\<bar>x\<bar> = \<bar>y\<bar> * q + r" unfolding q_def r_def by simp
  have "\<bar>y\<bar> * 1 \<le> \<bar>y\<bar> * q \<or> q = 0" using q0 y by (cases "q = 0") (simp_all add: mult_left_mono)
  then have qx: "q \<le> \<bar>x\<bar>"
  proof
    assume "q = 0" then show ?thesis by simp
  next
    assume "\<bar>y\<bar> * 1 \<le> \<bar>y\<bar> * q"
    have "1 * q \<le> \<bar>y\<bar> * q" using y q0 by (intro mult_right_mono) simp_all
    then show ?thesis using eq r0 by linarith
  qed
  have rx: "r \<le> \<bar>x\<bar>"
  proof -
    have "0 \<le> \<bar>y\<bar> * q" using y q0 by simp
    then show ?thesis using eq by linarith
  qed
  show "- N \<le> sq" unfolding sq_def using qx q0 assms(1,2) by auto
  show "- N \<le> sr" unfolding sr_def using rx r0 assms(1,2) by auto
  show "sr < N" unfolding sr_def using rx r0 assms(1,2) N by auto
  show "sq < N"
  proof (cases "(x < 0) \<noteq> (y < 0)")
    case True
    then show ?thesis unfolding sq_def using q0 N by auto
  next
    case False
    show ?thesis
    proof (cases "\<bar>x\<bar> < N")
      case True
      then show ?thesis unfolding sq_def using False qx by auto
    next
      case nx: False
      then have x: "x = - N" using assms(1,2) by linarith
      then have "y < 0" using False N by auto
      then have "1 < \<bar>y\<bar>" using assms(6) x by linarith
      then have "N div \<bar>y\<bar> < N" using N by (intro int_div_less_self)
      moreover have "\<bar>x\<bar> = N" using x N by simp
      ultimately show ?thesis unfolding sq_def q_def using False by simp
    qed
  qed
  show "x = sq * y + sr"
  proof (cases "x < 0")
    case xn: True
    show ?thesis
    proof (cases "y < 0")
      case True
      then show ?thesis unfolding sq_def sr_def using xn eq by (simp add: algebra_simps)
    next
      case False
      then show ?thesis unfolding sq_def sr_def using xn eq by (simp add: algebra_simps)
    qed
  next
    case xp: False
    show ?thesis
    proof (cases "y < 0")
      case True
      then show ?thesis unfolding sq_def sr_def using xp eq by (simp add: algebra_simps)
    next
      case False
      then show ?thesis unfolding sq_def sr_def using xp eq by (simp add: algebra_simps)
    qed
  qed
qed

lemma signed_operand_self:
  assumes "1 \<le> w" "- (2 ^ nat (w - 1)) \<le> v" "v < 2 ^ nat (w - 1)"
  shows "signed_operand v w = Inr v"
  using assms by (simp add: signed_operand_eq signed_take_bit_int_eq_self)

lemma signed_operand_mod:
  assumes "1 \<le> w" "- (2 ^ nat (w - 1)) \<le> v" "v < 2 ^ nat (w - 1)"
  shows "signed_operand (v mod 2 ^ nat w) w = Inr v"
proof -
  define n where "n = nat (w - 1)"
  have nw: "nat w = Suc n" using assms(1) by (simp add: n_def)
  have "v mod 2 ^ nat w = take_bit (Suc n) v" unfolding nw by (simp only: take_bit_eq_mod)
  moreover have "signed_take_bit n (take_bit (Suc n) v) = signed_take_bit n v"
    by (simp add: signed_take_bit_take_bit)
  moreover have "signed_take_bit n v = v"
    using assms(2,3) unfolding n_def [symmetric] by (simp add: signed_take_bit_int_eq_self)
  ultimately show ?thesis
    using signed_operand_eq [OF assms(1), of "v mod 2 ^ nat w"] unfolding n_def [symmetric]
    by simp
qed

lemma division_identity_unsigned_restoring:
  assumes "1 \<le> w" "b \<noteq> 0"
  shows "division_identity_unsigned a b w (div_restoring a b w False)"
  using assms
  by (simp add: division_identity_unsigned_def div_restoring_unsigned mask_to_width_eq
        div_mult_mod_eq)

lemma division_identity_signed_restoring:
  assumes "1 \<le> w" "b \<noteq> 0"
    and "\<not> (signed_operand a w = Inr (- (2 ^ nat (w - 1))) \<and> signed_operand b w = Inr (- 1))"
  shows "division_identity_signed a b w (div_restoring a b w True)"
proof -
  define N :: int where "N = 2 ^ nat (w - 1)"
  define x where "x = signed_take_bit (nat (w - 1)) a"
  define y where "y = signed_take_bit (nat (w - 1)) b"
  have sa: "signed_operand a w = Inr x" and sb: "signed_operand b w = Inr y"
    using assms(1) by (simp_all add: signed_operand_eq x_def y_def)
  have xr: "- N \<le> x" "x < N" and yr: "- N \<le> y" "y < N"
    unfolding N_def x_def y_def by (rule signed_bounds)+
  have ax: "\<bar>x\<bar> < 2 ^ nat w" unfolding x_def by (rule abs_signed_lt [OF assms(1)])
  note res = div_restoring_signed_gen [OF assms(1,2) sa sb ax]
  show ?thesis
  proof (cases "y = 0")
    case True
    define Q where "Q = (if x < 0 then - (2 ^ nat w - 1) else 2 ^ nat w - 1) mod (2::int) ^ nat w"
    have "(if x < 0 then - \<bar>x\<bar> else \<bar>x\<bar>) = x" by simp
    then have res0: "div_restoring a b w True = Inr (Q, x mod 2 ^ nat w)"
      unfolding res Q_def using True by simp
    have r: "signed_operand (x mod 2 ^ nat w) w = Inr x"
      using signed_operand_mod [OF assms(1), of x] xr by (simp add: N_def)
    obtain qs where q: "signed_operand Q w = Inr qs"
      using signed_operand_eq [OF assms(1), of Q] by blast
    show ?thesis
      unfolding division_identity_signed_def res0 sa sb using True
      by (simp add: q r)
  next
    case False
    have no: "\<not> (x = - N \<and> y = - 1)" using assms(3) unfolding sa sb N_def by simp
    define sq where "sq = (if (x < 0) \<noteq> (y < 0) then - (\<bar>x\<bar> div \<bar>y\<bar>) else \<bar>x\<bar> div \<bar>y\<bar>)"
    define sr where "sr = (if x < 0 then - (\<bar>x\<bar> mod \<bar>y\<bar>) else \<bar>x\<bar> mod \<bar>y\<bar>)"
    from trunc_div_facts [OF xr yr False no]
    have f: "- N \<le> sq" "sq < N" "- N \<le> sr" "sr < N" "x = sq * y + sr"
      unfolding sq_def sr_def by simp_all
    have q: "signed_operand (sq mod 2 ^ nat w) w = Inr sq"
      using signed_operand_mod [OF assms(1), of sq] f by (simp add: N_def)
    have r: "signed_operand (sr mod 2 ^ nat w) w = Inr sr"
      using signed_operand_mod [OF assms(1), of sr] f by (simp add: N_def)
    show ?thesis
      unfolding division_identity_signed_def res sa sb sq_def [symmetric] sr_def [symmetric]
      using False f(5) by (simp add: q r)
  qed
qed

lemma division_identity_signed_nonrestoring:
  assumes "1 \<le> w" "b \<noteq> 0"
    and "\<not> (signed_operand a w = Inr (- (2 ^ nat (w - 1))) \<and> signed_operand b w = Inr (- 1))"
    and "signed_operand b w \<noteq> Inr 0"
  shows "division_identity_signed a b w (div_nonrestoring a b w True)"
proof -
  define N :: int where "N = 2 ^ nat (w - 1)"
  define x where "x = signed_take_bit (nat (w - 1)) a"
  define y where "y = signed_take_bit (nat (w - 1)) b"
  have sa: "signed_operand a w = Inr x" and sb: "signed_operand b w = Inr y"
    using assms(1) by (simp_all add: signed_operand_eq x_def y_def)
  have xr: "- N \<le> x" "x < N" and yr: "- N \<le> y" "y < N"
    unfolding N_def x_def y_def by (rule signed_bounds)+
  have ax: "\<bar>x\<bar> < 2 ^ nat w" unfolding x_def by (rule abs_signed_lt [OF assms(1)])
  have ay: "\<bar>y\<bar> < 2 ^ nat w" unfolding y_def by (rule abs_signed_lt [OF assms(1)])
  have y0: "y \<noteq> 0" using assms(4) unfolding sb by simp
  have no: "\<not> (x = - N \<and> y = - 1)" using assms(3) unfolding sa sb N_def by simp
  define q where "q = \<bar>x\<bar> div \<bar>y\<bar>"
  define r where "r = \<bar>x\<bar> mod \<bar>y\<bar>"
  define sq where "sq = (if (x < 0) \<noteq> (y < 0) then - q else q)"
  define sr where "sr = (if x < 0 then - r else r)"
  from trunc_div_facts [OF xr yr y0 no]
  have f: "- N \<le> sq" "sq < N" "- N \<le> sr" "sr < N" "x = sq * y + sr"
    unfolding sq_def sr_def q_def r_def by simp_all
  define Qr where "Qr = (if (x < 0) \<noteq> (y < 0) \<and> q \<noteq> 0 then (- q) mod 2 ^ nat w else q)"
  define Rr where "Rr = (if x < 0 \<and> r \<noteq> 0 then (- r) mod 2 ^ nat w else r)"
  have res: "div_nonrestoring a b w True = Inr (Qr, Rr)"
    unfolding Qr_def Rr_def q_def r_def
    using div_nonrestoring_signed_gen [OF assms(1,2) sa sb ax ay] y0 by simp
  have qq: "signed_operand Qr w = Inr sq"
    using signed_operand_mod [OF assms(1), of sq] signed_operand_self [OF assms(1), of sq] f(1,2)
    unfolding N_def sq_def Qr_def by (cases "q = 0") auto
  have rr: "signed_operand Rr w = Inr sr"
    using signed_operand_mod [OF assms(1), of sr] signed_operand_self [OF assms(1), of sr] f(3,4)
    unfolding N_def sr_def Rr_def by (cases "r = 0") auto
  show ?thesis
    unfolding division_identity_signed_def res sa sb
    using f(5) by (simp only: qq rr sum.case prod.case)
qed

lemma division_by_zero_raises:
  "div_restoring a 0 w signed = Inl DivisionByZero"
  "div_nonrestoring a 0 w signed = Inl DivisionByZero"
  by (simp_all add: div_restoring_def div_nonrestoring_def)

lemma div_restoring_returns:
  assumes "1 \<le> w" "b \<noteq> 0"
  shows "\<exists>q r. div_restoring a b w signed = Inr (q, r)"
proof (cases signed)
  case True
  have "\<bar>signed_take_bit (nat (w - 1)) a\<bar> < 2 ^ nat w" by (rule abs_signed_lt [OF assms(1)])
  from div_restoring_signed_gen [OF assms signed_operand_eq [OF assms(1)]
      signed_operand_eq [OF assms(1)] this]
  show ?thesis using True by (auto split: if_splits)
next
  case False
  then show ?thesis using div_restoring_unsigned [OF assms, of a] by (auto split: if_splits)
qed


lemma div_restoring_raises_iff:
  assumes "1 \<le> w"
  shows "(div_restoring a b w signed = Inl DivisionByZero) = (b = 0)"
proof (cases "b = 0")
  case True
  then show ?thesis by (simp add: division_by_zero_raises)
next
  case False
  obtain q r where "div_restoring a b w signed = Inr (q, r)"
    using div_restoring_returns [OF assms False] by blast
  then show ?thesis using False by simp
qed

lemma div_nonrestoring_raises_iff:
  assumes "1 \<le> w"
  shows "(div_nonrestoring a b w signed = Inl DivisionByZero) =
         (b = 0 \<or> (signed \<and> signed_operand b w = Inr 0))"
proof (cases "b = 0")
  case True
  then show ?thesis by (simp add: division_by_zero_raises)
next
  case False
  show ?thesis
  proof (cases signed)
    case True
    have ax: "\<bar>signed_take_bit (nat (w - 1)) a\<bar> < 2 ^ nat w"
      and ay: "\<bar>signed_take_bit (nat (w - 1)) b\<bar> < 2 ^ nat w"
      by (rule abs_signed_lt [OF assms])+
    from div_nonrestoring_signed_gen [OF assms False signed_operand_eq [OF assms]
        signed_operand_eq [OF assms] ax ay]
    show ?thesis using True False assms by (simp add: signed_operand_eq)
  next
    case signed: False
    then show ?thesis
      using False div_restoring_raises_iff [OF assms, of a b False]
      by (simp add: div_nonrestoring_unsigned)
  qed
qed

lemma twos_complement_closed:
  assumes "1 \<le> w"
  shows "mask_to_width (NOT b + 1) w = Inr ((- b) mod 2 ^ nat w)"
  using assms by (simp add: mask_to_width_eq not_int_def)

lemma sub_unsigned_closed:
  assumes "1 \<le> w"
  shows "sub a b w False =
         Inr ((a mod 2 ^ nat w + (- b) mod 2 ^ nat w) mod 2 ^ nat w,
              [''borrow'' \<mapsto> PyBool (\<not> bit (a mod 2 ^ nat w + (- b) mod 2 ^ nat w) (nat w))])"
proof -
  have ad: "add a ((- b) mod 2 ^ nat w) w False =
        Inr ((a mod 2 ^ nat w + (- b) mod 2 ^ nat w) mod 2 ^ nat w,
             [''carry_out'' \<mapsto> PyInt (of_bool (bit (a mod 2 ^ nat w + (- b) mod 2 ^ nat w) (nat w)))])"
    using add_unsigned [OF assms, of a "(- b) mod 2 ^ nat w"] by simp
  show ?thesis
    using sub_unfold [OF assms twos_complement_closed [OF assms] ad]
    by (simp add: dict_get_def)
qed

lemma sub_signed_closed:
  assumes "1 \<le> w"
  shows "sub a b w True =
         Inr ((a mod 2 ^ nat w + (- b) mod 2 ^ nat w) mod 2 ^ nat w,
              [''overflow'' \<mapsto> PyBool
                 (bit (a mod 2 ^ nat w) (nat (w - 1)) = bit ((- b) mod 2 ^ nat w) (nat (w - 1)) \<and>
                  bit (a mod 2 ^ nat w) (nat (w - 1)) \<noteq>
                  bit ((a mod 2 ^ nat w + (- b) mod 2 ^ nat w) mod 2 ^ nat w) (nat (w - 1)))])"
proof -
  have ad: "add a ((- b) mod 2 ^ nat w) w True =
        Inr ((a mod 2 ^ nat w + (- b) mod 2 ^ nat w) mod 2 ^ nat w,
             [''overflow'' \<mapsto> PyBool
                 (bit (a mod 2 ^ nat w) (nat (w - 1)) = bit ((- b) mod 2 ^ nat w) (nat (w - 1)) \<and>
                  bit (a mod 2 ^ nat w) (nat (w - 1)) \<noteq>
                  bit ((a mod 2 ^ nat w + (- b) mod 2 ^ nat w) mod 2 ^ nat w) (nat (w - 1)))])"
    using add_signed [OF assms, of a "(- b) mod 2 ^ nat w"] by simp
  show ?thesis
    using sub_unfold [OF assms twos_complement_closed [OF assms] ad]
    by (simp add: dict_get_def)
qed

section \<open>Width masking and sign extension: the claims\<close>

text \<open>
  C7 (round trip). For every width \<open>w \<ge> 1\<close> and every raw value \<open>r\<close> with
  \<open>0 \<le> r < 2 ^ w\<close>, sign-extending \<open>r\<close> and masking the result to \<open>w\<close> bits gives \<open>r\<close>
  back: \<^verbatim>\<open>mask_to_width(sign_extend(r, w), w) == r\<close>, and neither call raises.
\<close>

theorem mask_sign_extend_round_trip:
  assumes "1 \<le> w" "0 \<le> r" "r < 2 ^ nat w"
  shows "bind_err (sign_extend r w) (\<lambda>s. mask_to_width s w) = Inr r"
  using assms by (simp add: sign_extend_eq mask_to_width_eq)

theorem mask_sign_extend_round_trip_witness:
  "(1::int) \<le> 8 \<and> (0::int) \<le> 200 \<and> (200::int) < 2 ^ nat 8 \<and>
   sign_extend 200 8 = Inr (- 56) \<and>
   bind_err (sign_extend 200 8) (\<lambda>s. mask_to_width s 8) = Inr 200"
  using mask_sign_extend_round_trip [of 8 200] by (simp add: sign_extend_eq bit_iff_odd)

text \<open>
  C8 (true modulo). For every integer \<open>v\<close>, negative ones included, and every width
  \<open>w \<ge> 1\<close>, \<^verbatim>\<open>mask_to_width(v, w)\<close> returns \<open>v mod 2 ^ w\<close> for the mathematical (floor)
  modulo, which is what \<open>mod\<close> on \<open>int\<close> is: the result lies in \<open>[0, 2 ^ w)\<close>. At
  \<open>v = -1\<close>, \<open>w = 8\<close> it is 255, where the remainder of a division truncating toward
  zero would be \<open>-1\<close>.
\<close>

theorem mask_to_width_modulo:
  assumes "1 \<le> w"
  shows "mask_to_width v w = Inr (v mod 2 ^ nat w) \<and>
         0 \<le> v mod 2 ^ nat w \<and> v mod 2 ^ nat w < 2 ^ nat w"
  using assms by (simp add: mask_to_width_eq)

theorem mask_to_width_modulo_witness:
  "(1::int) \<le> 8 \<and> mask_to_width (- 1) 8 = Inr 255"
  using mask_to_width_modulo [of 8 "- 1"] by simp

text \<open>
  C9 (arithmetic right shift). For every width \<open>w \<ge> 1\<close>, every raw value in
  \<open>[0, 2 ^ w)\<close> and every shift \<open>s\<close> with \<open>0 \<le> s \<le> w\<close>: a shift by 0 is the identity;
  when bit \<open>w - 1\<close> of the raw value is clear the result is the logical shift
  \<^verbatim>\<open>raw >> s\<close>; when it is set the result \<open>r\<close> is \<^verbatim>\<open>raw >> s\<close> with the top \<open>s\<close> bits of
  the \<open>w\<close>-bit field set and nothing above bit \<open>w - 1\<close>, that is, bit \<open>i\<close> of \<open>r\<close> is set
  exactly when \<open>i < w\<close> and either \<open>w - s \<le> i\<close> or bit \<open>i + s\<close> of the raw value is set;
  and a shift by \<open>w\<close> with the sign bit set gives the all-ones value \<open>2 ^ w - 1\<close>.
\<close>

theorem arithmetic_right_shift_spec:
  assumes "1 \<le> w" "0 \<le> raw" "raw < 2 ^ nat w" "0 \<le> s" "s \<le> w"
  shows "arithmetic_right_shift raw 0 w = Inr raw \<and>
         (\<not> bit raw (nat (w - 1)) \<longrightarrow>
            arithmetic_right_shift raw s w = Inr (drop_bit (nat s) raw)) \<and>
         (bit raw (nat (w - 1)) \<longrightarrow>
            (\<exists>r. arithmetic_right_shift raw s w = Inr r \<and>
                 (\<forall>i. bit r i = (i < nat w \<and> (nat (w - s) \<le> i \<or> bit raw (i + nat s)))))) \<and>
         (bit raw (nat (w - 1)) \<and> s = w \<longrightarrow>
            arithmetic_right_shift raw s w = Inr (2 ^ nat w - 1))"
proof (intro conjI impI)
  show "arithmetic_right_shift raw 0 w = Inr raw"
    by (simp add: arithmetic_right_shift_def)
next
  assume "\<not> bit raw (nat (w - 1))"
  then show "arithmetic_right_shift raw s w = Inr (drop_bit (nat s) raw)"
    using assms by (simp add: ars_clear)
next
  assume "bit raw (nat (w - 1))"
  then show "\<exists>r. arithmetic_right_shift raw s w = Inr r \<and>
                 (\<forall>i. bit r i = (i < nat w \<and> (nat (w - s) \<le> i \<or> bit raw (i + nat s))))"
    using assms by (rule ars_bits [rotated -1])
next
  assume "bit raw (nat (w - 1)) \<and> s = w"
  then show "arithmetic_right_shift raw s w = Inr (2 ^ nat w - 1)"
    using assms ars_full [of w raw] by simp
qed

theorem arithmetic_right_shift_spec_witness:
  "(1::int) \<le> 8 \<and> (0::int) \<le> 200 \<and> (200::int) < 2 ^ nat 8 \<and> (0::int) \<le> 8 \<and> (8::int) \<le> 8 \<and>
   bit (200::int) (nat (8 - 1)) \<and>
   arithmetic_right_shift 200 0 8 = Inr 200 \<and>
   arithmetic_right_shift 200 8 8 = Inr 255 \<and>
   (0::int) \<le> 100 \<and> (100::int) < 2 ^ nat 8 \<and> (0::int) \<le> 3 \<and> (3::int) \<le> 8 \<and>
   \<not> bit (100::int) (nat (8 - 1)) \<and>
   arithmetic_right_shift 100 3 8 = Inr 12"
  using arithmetic_right_shift_spec [of 8 200 8] arithmetic_right_shift_spec [of 8 100 3]
  by (simp add: bit_iff_odd drop_bit_eq_div)

section \<open>Addition and subtraction: the claims\<close>

text \<open>
  C3 (addition). For every width \<open>w \<ge> 1\<close> and all integers \<open>a\<close>, \<open>b\<close>, \<^verbatim>\<open>add\<close> returns
  as result the unbounded sum of the masked operands, masked to \<open>w\<close> bits. In unsigned
  mode the flags are \<^verbatim>\<open>{carry_out}\<close>, bit \<open>w\<close> of that unbounded sum (the integer 0 or
  1). In signed mode the flags are \<^verbatim>\<open>{overflow}\<close>, true exactly when bit \<open>w - 1\<close> of the
  two masked operands agree and differ from bit \<open>w - 1\<close> of the result. Concretely
  \<^verbatim>\<open>add(200, 100, 8, False)\<close> is \<^verbatim>\<open>(44, {'carry_out': 1})\<close> and \<^verbatim>\<open>add(100, 50, 8, False)\<close>
  is \<^verbatim>\<open>(150, {'carry_out': 0})\<close>, where Python's \<^verbatim>\<open>==\<close> identifies 1 with \<^verbatim>\<open>True\<close> and 0
  with \<^verbatim>\<open>False\<close>.
\<close>

theorem add_spec:
  assumes "1 \<le> w"
  shows "add a b w False =
           Inr ((a mod 2 ^ nat w + b mod 2 ^ nat w) mod 2 ^ nat w,
                [''carry_out'' \<mapsto>
                   PyInt (of_bool (bit (a mod 2 ^ nat w + b mod 2 ^ nat w) (nat w)))]) \<and>
         add a b w True =
           Inr ((a mod 2 ^ nat w + b mod 2 ^ nat w) mod 2 ^ nat w,
                [''overflow'' \<mapsto> PyBool
                   (bit (a mod 2 ^ nat w) (nat (w - 1)) = bit (b mod 2 ^ nat w) (nat (w - 1)) \<and>
                    bit (a mod 2 ^ nat w) (nat (w - 1)) \<noteq>
                    bit ((a mod 2 ^ nat w + b mod 2 ^ nat w) mod 2 ^ nat w) (nat (w - 1)))]) \<and>
         add 200 100 8 False = Inr (44, [''carry_out'' \<mapsto> PyInt 1]) \<and>
         py_eq (PyInt 1) (PyBool True) \<and>
         add 100 50 8 False = Inr (150, [''carry_out'' \<mapsto> PyInt 0]) \<and>
         py_eq (PyInt 0) (PyBool False)"
  using assms add_unsigned [OF assms, of a b] add_signed [OF assms, of a b]
  by (simp add: add_200 add_100 py_eq_def)

theorem add_spec_witness:
  "(1::int) \<le> 8 \<and> add 200 100 8 False = Inr (44, [''carry_out'' \<mapsto> PyInt 1]) \<and>
   add 100 50 8 True = Inr (150, [''overflow'' \<mapsto> PyBool True])"
  using add_spec [of 8 200 100] add_spec [of 8 100 50] by (simp add: bit_iff_odd)

text \<open>
  C4 (exactly one flag). As stated, the claim says that \<^verbatim>\<open>add\<close> and \<^verbatim>\<open>sub\<close> both
  return exactly one flag, \<^verbatim>\<open>carry_out\<close> on the unsigned path and \<^verbatim>\<open>overflow\<close> on the
  signed path. The unsigned path of \<^verbatim>\<open>sub\<close> returns \<^verbatim>\<open>borrow\<close> instead, as its
  docstring says: \<^verbatim>\<open>sub(5, 3, 8, False)\<close> is \<^verbatim>\<open>(2, {'borrow': False})\<close>.
\<close>

theorem sub_unsigned_flag_counterexample:
  "sub 5 3 8 False = Inr (2, [''borrow'' \<mapsto> PyBool False]) \<and>
   \<not> only_flag ''carry_out'' (sub 5 3 8 False)"
  by (simp add: sub_53 only_flag_def)

text \<open>
  C4, amended. For every width \<open>w \<ge> 1\<close>, both signedness modes and all operands, \<^verbatim>\<open>add\<close>
  and \<^verbatim>\<open>sub\<close> each return a flag dictionary with exactly one key: for \<^verbatim>\<open>add\<close> it is
  \<^verbatim>\<open>carry_out\<close> on the unsigned path and \<^verbatim>\<open>overflow\<close> on the signed path; for \<^verbatim>\<open>sub\<close>
  it is \<^verbatim>\<open>borrow\<close> on the unsigned path and \<^verbatim>\<open>overflow\<close> on the signed path.
\<close>

theorem add_sub_single_flag:
  assumes "1 \<le> w"
  shows "only_flag (if signed then ''overflow'' else ''carry_out'') (add a b w signed) \<and>
         only_flag (if signed then ''overflow'' else ''borrow'') (sub a b w signed)"
proof (cases signed)
  case True
  obtain tc r ov where "sub a b w True = Inr (r, [''overflow'' \<mapsto> ov])"
    using sub_signed [OF assms] by blast
  then show ?thesis using True by (simp add: only_flag_def add_signed [OF assms])
next
  case False
  obtain tc r c where "sub a b w False = Inr (r, [''borrow'' \<mapsto> PyBool (\<not> truthy c)])"
    using sub_unsigned [OF assms] by blast
  then show ?thesis using False by (simp add: only_flag_def add_unsigned [OF assms])
qed

theorem add_sub_single_flag_witness:
  "(1::int) \<le> 8 \<and> only_flag ''carry_out'' (add 5 3 8 False) \<and>
   only_flag ''borrow'' (sub 5 3 8 False) \<and>
   only_flag ''overflow'' (add 5 3 8 True) \<and> only_flag ''overflow'' (sub 5 3 8 True)"
  using add_sub_single_flag [of 8 False 5 3] add_sub_single_flag [of 8 True 5 3] by simp

text \<open>
  C5 (subtraction). For every width \<open>w \<ge> 1\<close>, both signedness modes and all integers
  \<open>a\<close>, \<open>b\<close>: the two's complement \<^verbatim>\<open>mask_to_width(~b + 1, w)\<close> of \<open>b\<close> is
  \<open>(- b) mod 2 ^ w\<close>, and \<^verbatim>\<open>sub(a, b, w, signed)\<close> returns the result value of \<^verbatim>\<open>add\<close> on
  \<open>a\<close> and that two's complement. On the unsigned path the addition's flags are
  \<^verbatim>\<open>{carry_out: c}\<close> with \<open>c\<close> the integer 0 or 1, and the flags of \<^verbatim>\<open>sub\<close> are
  \<^verbatim>\<open>{borrow}\<close> with \<^verbatim>\<open>borrow = not c\<close>, true exactly when \<open>c = 0\<close>; on the signed path
  they are the addition's \<^verbatim>\<open>{overflow}\<close>, unchanged. In closed form, the result is
  \<open>(a mod 2 ^ w + (- b) mod 2 ^ w) mod 2 ^ w\<close>, \<^verbatim>\<open>borrow\<close> is true exactly when bit \<open>w\<close> of
  the unbounded sum \<open>a mod 2 ^ w + (- b) mod 2 ^ w\<close> is clear, and \<^verbatim>\<open>overflow\<close> is true
  exactly when bit \<open>w - 1\<close> of the masked \<open>a\<close> and of the two's complement agree and
  differ from bit \<open>w - 1\<close> of the result. Concretely \<^verbatim>\<open>sub(-128, 1, 8, True)\<close> reports
  \<^verbatim>\<open>overflow == True\<close>.
\<close>

theorem sub_spec:
  assumes "1 \<le> w"
  shows "mask_to_width (NOT b + 1) w = Inr ((- b) mod 2 ^ nat w) \<and>
         (\<exists>r c. add a ((- b) mod 2 ^ nat w) w False = Inr (r, [''carry_out'' \<mapsto> PyInt c]) \<and>
            (c = 0 \<or> c = 1) \<and>
            sub a b w False = Inr (r, [''borrow'' \<mapsto> PyBool (c = 0)])) \<and>
         (\<exists>r ov. add a ((- b) mod 2 ^ nat w) w True = Inr (r, [''overflow'' \<mapsto> PyBool ov]) \<and>
            sub a b w True = Inr (r, [''overflow'' \<mapsto> PyBool ov])) \<and>
         sub a b w False =
           Inr ((a mod 2 ^ nat w + (- b) mod 2 ^ nat w) mod 2 ^ nat w,
                [''borrow'' \<mapsto>
                   PyBool (\<not> bit (a mod 2 ^ nat w + (- b) mod 2 ^ nat w) (nat w))]) \<and>
         sub a b w True =
           Inr ((a mod 2 ^ nat w + (- b) mod 2 ^ nat w) mod 2 ^ nat w,
                [''overflow'' \<mapsto> PyBool
                   (bit (a mod 2 ^ nat w) (nat (w - 1)) = bit ((- b) mod 2 ^ nat w) (nat (w - 1)) \<and>
                    bit (a mod 2 ^ nat w) (nat (w - 1)) \<noteq>
                    bit ((a mod 2 ^ nat w + (- b) mod 2 ^ nat w) mod 2 ^ nat w) (nat (w - 1)))]) \<and>
         sub (- 128) 1 8 True = Inr (127, [''overflow'' \<mapsto> PyBool True])"
proof (intro conjI)
  show "mask_to_width (NOT b + 1) w = Inr ((- b) mod 2 ^ nat w)"
    by (rule twos_complement_closed [OF assms])
  show "\<exists>r c. add a ((- b) mod 2 ^ nat w) w False = Inr (r, [''carry_out'' \<mapsto> PyInt c]) \<and>
            (c = 0 \<or> c = 1) \<and>
            sub a b w False = Inr (r, [''borrow'' \<mapsto> PyBool (c = 0)])"
  proof (intro exI conjI)
    show "add a ((- b) mod 2 ^ nat w) w False =
          Inr ((a mod 2 ^ nat w + (- b) mod 2 ^ nat w) mod 2 ^ nat w,
               [''carry_out'' \<mapsto>
                  PyInt (of_bool (bit (a mod 2 ^ nat w + (- b) mod 2 ^ nat w) (nat w)))])"
      using add_unsigned [OF assms, of a "(- b) mod 2 ^ nat w"] by simp
    show "(of_bool (bit (a mod 2 ^ nat w + (- b) mod 2 ^ nat w) (nat w)) :: int) = 0 \<or>
          (of_bool (bit (a mod 2 ^ nat w + (- b) mod 2 ^ nat w) (nat w)) :: int) = 1"
      by simp
    show "sub a b w False =
          Inr ((a mod 2 ^ nat w + (- b) mod 2 ^ nat w) mod 2 ^ nat w,
               [''borrow'' \<mapsto>
                  PyBool ((of_bool (bit (a mod 2 ^ nat w + (- b) mod 2 ^ nat w) (nat w)) :: int) = 0)])"
      using sub_unsigned_closed [OF assms, of a b] by simp
  qed
  show "\<exists>r ov. add a ((- b) mod 2 ^ nat w) w True = Inr (r, [''overflow'' \<mapsto> PyBool ov]) \<and>
            sub a b w True = Inr (r, [''overflow'' \<mapsto> PyBool ov])"
  proof (intro exI conjI)
    show "add a ((- b) mod 2 ^ nat w) w True =
        Inr ((a mod 2 ^ nat w + (- b) mod 2 ^ nat w) mod 2 ^ nat w,
             [''overflow'' \<mapsto> PyBool
                 (bit (a mod 2 ^ nat w) (nat (w - 1)) = bit ((- b) mod 2 ^ nat w) (nat (w - 1)) \<and>
                  bit (a mod 2 ^ nat w) (nat (w - 1)) \<noteq>
                  bit ((a mod 2 ^ nat w + (- b) mod 2 ^ nat w) mod 2 ^ nat w) (nat (w - 1)))])"
      using add_signed [OF assms, of a "(- b) mod 2 ^ nat w"] by simp
    show "sub a b w True =
        Inr ((a mod 2 ^ nat w + (- b) mod 2 ^ nat w) mod 2 ^ nat w,
             [''overflow'' \<mapsto> PyBool
                 (bit (a mod 2 ^ nat w) (nat (w - 1)) = bit ((- b) mod 2 ^ nat w) (nat (w - 1)) \<and>
                  bit (a mod 2 ^ nat w) (nat (w - 1)) \<noteq>
                  bit ((a mod 2 ^ nat w + (- b) mod 2 ^ nat w) mod 2 ^ nat w) (nat (w - 1)))])"
      by (rule sub_signed_closed [OF assms])
  qed
  show "sub a b w False =
           Inr ((a mod 2 ^ nat w + (- b) mod 2 ^ nat w) mod 2 ^ nat w,
                [''borrow'' \<mapsto>
                   PyBool (\<not> bit (a mod 2 ^ nat w + (- b) mod 2 ^ nat w) (nat w))])"
    by (rule sub_unsigned_closed [OF assms])
  show "sub a b w True =
           Inr ((a mod 2 ^ nat w + (- b) mod 2 ^ nat w) mod 2 ^ nat w,
                [''overflow'' \<mapsto> PyBool
                   (bit (a mod 2 ^ nat w) (nat (w - 1)) = bit ((- b) mod 2 ^ nat w) (nat (w - 1)) \<and>
                    bit (a mod 2 ^ nat w) (nat (w - 1)) \<noteq>
                    bit ((a mod 2 ^ nat w + (- b) mod 2 ^ nat w) mod 2 ^ nat w) (nat (w - 1)))])"
    by (rule sub_signed_closed [OF assms])
  show "sub (- 128) 1 8 True = Inr (127, [''overflow'' \<mapsto> PyBool True])"
    by (rule sub_128)
qed

theorem sub_spec_witness:
  "(1::int) \<le> 8 \<and>
   mask_to_width (NOT 5 + 1) 8 = Inr 251 \<and>
   add 3 251 8 False = Inr (254, [''carry_out'' \<mapsto> PyInt 0]) \<and>
   sub 3 5 8 False = Inr (254, [''borrow'' \<mapsto> PyBool True]) \<and>
   add 5 253 8 False = Inr (2, [''carry_out'' \<mapsto> PyInt 1]) \<and>
   sub 5 3 8 False = Inr (2, [''borrow'' \<mapsto> PyBool False]) \<and>
   mask_to_width (NOT 1 + 1) 8 = Inr 255 \<and>
   add (- 128) 255 8 True = Inr (127, [''overflow'' \<mapsto> PyBool True]) \<and>
   sub (- 128) 1 8 True = Inr (127, [''overflow'' \<mapsto> PyBool True]) \<and>
   sub 5 3 8 True = Inr (2, [''overflow'' \<mapsto> PyBool False])"
  using sub_spec [where w = 8 and a = 3 and b = 5] sub_spec [where w = 8 and a = 5 and b = 3]
    sub_spec [where w = 8 and a = "- 128" and b = 1]
  by (simp add: add_unsigned add_signed bit_iff_odd)

section \<open>Multipliers: the claim\<close>

lemma mul_booth_unsigned: "mul_booth a b w False = mul_sequential a b w False"
  by (simp add: mul_booth_def)

lemma mul_bitpair_unsigned: "mul_bitpair a b w False = mul_sequential a b w False"
  by (simp add: mul_bitpair_def)

text \<open>
  C2 (the four multipliers agree). For every width \<open>w \<ge> 1\<close>, both signedness modes and
  all integers \<open>a\<close>, \<open>b\<close>, the four variants \<^verbatim>\<open>mul_sequential\<close>, \<^verbatim>\<open>mul_booth\<close>, \<^verbatim>\<open>mul_bit\<close>
  and \<^verbatim>\<open>mul_bitpair\<close> return the same pair (product, empty flags), and the product is
  the integer product of the width-\<open>w\<close> interpretations of \<open>a\<close> and \<open>b\<close> masked to
  \<open>2 * w\<close> bits: the masked values in unsigned mode, the sign-extended masked values
  \<open>x\<close> and \<open>y\<close> in signed mode.
\<close>

theorem multipliers_agree:
  assumes "1 \<le> w"
  shows "mul_sequential a b w False =
           Inr ((a mod 2 ^ nat w) * (b mod 2 ^ nat w) mod 2 ^ nat (2 * w), Map.empty) \<and>
         mul_booth a b w False = mul_sequential a b w False \<and>
         mul_bit a b w False = mul_sequential a b w False \<and>
         mul_bitpair a b w False = mul_sequential a b w False \<and>
         (\<exists>x y. signed_operand a w = Inr x \<and> signed_operand b w = Inr y \<and>
            mul_sequential a b w True = Inr (x * y mod 2 ^ nat (2 * w), Map.empty)) \<and>
         mul_booth a b w True = mul_sequential a b w True \<and>
         mul_bit a b w True = mul_sequential a b w True \<and>
         mul_bitpair a b w True = mul_sequential a b w True"
  using assms
  by (simp add: mul_sequential_unsigned mul_sequential_signed mul_bit_unsigned mul_bit_signed
        mul_booth_signed mul_bitpair_signed signed_operand_eq mul_booth_unsigned
        mul_bitpair_unsigned)

theorem multipliers_agree_witness:
  "(1::int) \<le> 8 \<and> mul_sequential (- 5) 6 8 True = Inr (65506, Map.empty) \<and>
   mul_booth (- 5) 6 8 True = Inr (65506, Map.empty) \<and>
   mul_bit (- 5) 6 8 True = Inr (65506, Map.empty) \<and>
   mul_bitpair (- 5) 6 8 True = Inr (65506, Map.empty) \<and>
   mul_sequential 250 6 8 False = Inr (1500, Map.empty)"
  using multipliers_agree [of 8 "- 5" 6] multipliers_agree [of 8 250 6]
  by (simp add: signed_operand_eq)

section \<open>Dividers: the claims\<close>

text \<open>
  C1 (division identity). As stated, the claim says that for every width \<open>w \<ge> 1\<close>, both
  signedness modes, both dividers and every raw divisor \<open>b \<noteq> 0\<close>, the returned quotient
  and remainder satisfy \<open>A_s = Q_s * B_s + R_s\<close> on the sign-extended interpretations of
  the masked inputs and outputs. In unsigned mode the dividers work on the unsigned
  interpretation: \<^verbatim>\<open>div_restoring(200, 3, 8, False)\<close> is \<open>(66, 2)\<close> while 200 sign-extends to
  \<open>-56\<close>. In signed mode the quotient of \<open>-2 ^ (w - 1)\<close> by \<open>-1\<close> does not fit in \<open>w\<close>
  bits: \<^verbatim>\<open>div_restoring(-128, -1, 8, True)\<close> is \<open>(128, 0)\<close>, and 128 sign-extends to
  \<open>-128\<close>.
\<close>

theorem division_identity_counterexample:
  "div_restoring 200 3 8 False = Inr (66, 2) \<and>
   signed_operand 200 8 = Inr (- 56) \<and>
   \<not> division_identity_signed 200 3 8 (div_restoring 200 3 8 False) \<and>
   div_restoring (- 128) (- 1) 8 True = Inr (128, 0) \<and>
   signed_operand 128 8 = Inr (- 128) \<and>
   \<not> division_identity_signed (- 128) (- 1) 8 (div_restoring (- 128) (- 1) 8 True)"
  by code_simp

text \<open>
  C1, amended. For every width \<open>w \<ge> 1\<close>, all \<open>a\<close> and every raw divisor \<open>b \<noteq> 0\<close>: in
  unsigned mode both dividers return a quotient \<open>q\<close> and a remainder \<open>r\<close> with
  \<open>a_masked = q * b_masked + r\<close> on the masked operands; in signed mode, unless the
  sign-extended operands are \<open>-2 ^ (w - 1)\<close> and \<open>-1\<close>, \<^verbatim>\<open>div_restoring\<close> returns a
  quotient and a remainder with \<open>A_s = Q_s * B_s + R_s\<close> on the sign-extended
  interpretations, and so does \<^verbatim>\<open>div_nonrestoring\<close> when the sign-extended divisor is
  not 0.
\<close>

theorem division_identity:
  assumes "1 \<le> w" "b \<noteq> 0"
  shows "division_identity_unsigned a b w (div_restoring a b w False) \<and>
         division_identity_unsigned a b w (div_nonrestoring a b w False) \<and>
         (\<not> (signed_operand a w = Inr (- (2 ^ nat (w - 1))) \<and> signed_operand b w = Inr (- 1)) \<longrightarrow>
            division_identity_signed a b w (div_restoring a b w True) \<and>
            (signed_operand b w \<noteq> Inr 0 \<longrightarrow>
               division_identity_signed a b w (div_nonrestoring a b w True)))"
  using assms
  by (simp add: division_identity_unsigned_restoring div_nonrestoring_unsigned
        division_identity_signed_restoring division_identity_signed_nonrestoring)

theorem division_identity_witness:
  "(1::int) \<le> 8 \<and> (2::int) \<noteq> 0 \<and>
   \<not> (signed_operand (- 7) 8 = Inr (- (2 ^ nat (8 - 1))) \<and> signed_operand 2 8 = Inr (- 1)) \<and>
   signed_operand 2 8 \<noteq> Inr 0 \<and>
   division_identity_unsigned (- 7) 2 8 (div_restoring (- 7) 2 8 False) \<and>
   division_identity_unsigned (- 7) 2 8 (div_nonrestoring (- 7) 2 8 False) \<and>
   division_identity_signed (- 7) 2 8 (div_restoring (- 7) 2 8 True) \<and>
   division_identity_signed (- 7) 2 8 (div_nonrestoring (- 7) 2 8 True)"
proof -
  have h: "signed_operand 2 8 = Inr 2" "signed_operand (- 7) 8 = Inr (- 7)"
    by (simp_all add: signed_operand_self)
  show ?thesis using division_identity [of 8 2 "- 7"] by (simp add: h)
qed

text \<open>
  C6 (division by zero). The claim says that both dividers raise the division-by-zero
  error exactly when the raw divisor is 0, and never for a raw divisor that is nonzero
  but masks to 0. Both dividers do raise it for every raw divisor 0
  (\<open>division_by_zero_raises\<close>), and \<^verbatim>\<open>div_restoring\<close> raises it for no other divisor when
  \<open>w \<ge> 1\<close> (\<open>div_restoring_raises_iff\<close>, \<open>div_nonrestoring_raises_iff\<close>). The signed
  path of \<^verbatim>\<open>div_nonrestoring\<close> passes the magnitude of the masked,
  sign-extended divisor to \<^verbatim>\<open>div_restoring\<close>, whose own \<^verbatim>\<open>b == 0\<close> guard then raises:
  \<^verbatim>\<open>div_nonrestoring(5, 256, 8, True)\<close> fails with the division-by-zero error, where
  \<^verbatim>\<open>div_restoring(5, 256, 8, True)\<close> and \<^verbatim>\<open>div_nonrestoring(5, 256, 8, False)\<close> return
  \<open>(255, 5)\<close>.
\<close>

theorem nonrestoring_masked_zero_divisor:
  "div_nonrestoring 5 256 8 True = Inl DivisionByZero \<and>
   div_restoring 5 256 8 True = Inr (255, 5) \<and>
   div_nonrestoring 5 256 8 False = Inr (255, 5)"
  by code_simp

text \<open>
  C10 (unsigned division is Euclidean). For every width \<open>w \<ge> 1\<close> and all integers \<open>a\<close>,
  \<open>b\<close> whose masked divisor is not 0, both dividers in unsigned mode return the
  floor quotient and the remainder of the masked dividend \<open>am\<close> by the masked divisor
  \<open>bm\<close>, and the remainder lies in \<open>[0, bm)\<close>.
\<close>

theorem unsigned_division_euclidean:
  assumes "1 \<le> w" "mask_to_width b w \<noteq> Inr 0"
  shows "\<exists>am bm. mask_to_width a w = Inr am \<and> mask_to_width b w = Inr bm \<and>
           div_restoring a b w False = Inr (am div bm, am mod bm) \<and>
           div_nonrestoring a b w False = Inr (am div bm, am mod bm) \<and>
           0 \<le> am mod bm \<and> am mod bm < bm"
proof -
  have bm: "b mod 2 ^ nat w \<noteq> 0" using assms by (simp add: mask_to_width_eq)
  then have b0: "b \<noteq> 0" by auto
  have "0 \<le> b mod 2 ^ nat w" by simp
  then have pos: "0 < b mod 2 ^ nat w" using bm by linarith
  show ?thesis
    using assms(1) bm pos
    by (simp add: mask_to_width_eq div_restoring_unsigned [OF assms(1) b0]
          div_nonrestoring_unsigned)
qed

theorem unsigned_division_euclidean_witness:
  "(1::int) \<le> 4 \<and> mask_to_width 4 4 \<noteq> Inr 0 \<and>
   div_restoring 13 4 4 False = Inr (3, 1) \<and> div_nonrestoring 13 4 4 False = Inr (3, 1)"
  using unsigned_division_euclidean [of 4 4 13] by (simp add: mask_to_width_eq)

end
